theory Spec2Isabelle
  imports Main "HOL-Library.Sublist" "HOL-Library.Word"
begin

section \<open>Standard-library functions used by align.go\<close>

text \<open>
  Go strings are byte sequences; they are modelled as \<open>string\<close> (a list of 8-bit
  characters), so \<open>length\<close> is Go's \<open>len\<close>, \<open>take\<close>/\<open>drop\<close> are the slices
  \<open>s[:i]\<close>/\<open>s[i:]\<close> and \<open>prefix\<close> is \<open>strings.HasPrefix\<close>. Go's \<open>int\<close> has 64 bits;
  every integer below is bounded by the size of the input held in memory, so \<open>int\<close> and
  \<open>nat\<close> are used without wrap-around.
\<close>

text \<open>
  \<open>strings.Index(s, substr)\<close>: the index of the first instance of \<open>substr\<close> in \<open>s\<close>,
  or \<open>-1\<close> when there is none (the empty string is found at index 0).
\<close>

fun strings_Index :: "string \<Rightarrow> string \<Rightarrow> int" where
  "strings_Index [] substr = (if substr = [] then 0 else - 1)"
| "strings_Index (c # cs) substr =
     (if prefix substr (c # cs) then 0
      else (let i = strings_Index cs substr in if i = - 1 then - 1 else i + 1))"

text \<open>
  \<open>utf8.DecodeRuneInString\<close> (only the width it returns): the table \<open>first\<close> with the
  accept range of the second byte, then the continuation bytes. An invalid or short
  encoding has width 1.
\<close>

definition utf8_first :: "nat \<Rightarrow> (nat \<times> nat \<times> nat) option" where
  "utf8_first b =
     (if 0xC2 \<le> b \<and> b \<le> 0xDF then Some (2, 0x80, 0xBF)
      else if b = 0xE0 then Some (3, 0xA0, 0xBF)
      else if (0xE1 \<le> b \<and> b \<le> 0xEC) \<or> b = 0xEE \<or> b = 0xEF then Some (3, 0x80, 0xBF)
      else if b = 0xED then Some (3, 0x80, 0x9F)
      else if b = 0xF0 then Some (4, 0x90, 0xBF)
      else if 0xF1 \<le> b \<and> b \<le> 0xF3 then Some (4, 0x80, 0xBF)
      else if b = 0xF4 then Some (4, 0x80, 0x8F)
      else None)"

definition utf8_cont :: "char \<Rightarrow> bool" where
  "utf8_cont c = (0x80 \<le> (of_char c :: nat) \<and> (of_char c :: nat) \<le> 0xBF)"

fun DecodeRuneInString_size :: "string \<Rightarrow> nat" where
  "DecodeRuneInString_size [] = 0"
| "DecodeRuneInString_size (s0 # rest) =
     (case utf8_first (of_char s0) of
        None \<Rightarrow> 1
      | Some (sz, lo, hi) \<Rightarrow>
          if length (s0 # rest) < sz then 1
          else if (of_char (rest ! 0) :: nat) < lo \<or> hi < (of_char (rest ! 0) :: nat) then 1
          else if sz \<le> 2 then 2
          else if \<not> utf8_cont (rest ! 1) then 1
          else if sz \<le> 3 then 3
          else if \<not> utf8_cont (rest ! 2) then 1
          else 4)"

text \<open>\<open>strings.explode(s, -1)\<close>: \<open>s\<close> cut after each UTF-8 sequence.\<close>

function explode :: "string \<Rightarrow> string list" where
  "explode s =
     (if s = [] then []
      else take (DecodeRuneInString_size s) s # explode (drop (DecodeRuneInString_size s) s))"
  by pat_completeness auto
termination
proof (relation "measure length")
  show "wf (measure length)" by simp
next
  fix s :: string
  assume "s \<noteq> []"
  then have "0 < DecodeRuneInString_size s"
    by (cases s) (auto split: option.splits)
  with \<open>s \<noteq> []\<close> show "(drop (DecodeRuneInString_size s) s, s) \<in> measure length"
    by (cases s) auto
qed

declare explode.simps [simp del]

text \<open>
  \<open>strings.Split(s, sep)\<close> (\<open>genSplit\<close> with \<open>n = -1\<close>): with an empty separator the string
  is exploded; otherwise it is cut at each successive instance of \<open>sep\<close>, and what is left
  after the last instance is the last element.
\<close>

function strings_Split :: "string \<Rightarrow> string \<Rightarrow> string list" where
  "strings_Split s sp =
     (if sp = [] then explode s
      else if strings_Index s sp < 0 then [s]
      else take (nat (strings_Index s sp)) s
             # strings_Split (drop (nat (strings_Index s sp) + length sp) s) sp)"
  by pat_completeness auto
termination
proof (relation "measure (\<lambda>(s, sp). length s)")
  show "wf (measure (\<lambda>(s, sp). length s))" by simp
next
  fix s sp :: string
  assume sp: "sp \<noteq> []" and found: "\<not> strings_Index s sp < 0"
  from sp found have "s \<noteq> []" by (cases s) auto
  with sp show "((drop (nat (strings_Index s sp) + length sp) s, sp), s, sp)
                  \<in> measure (\<lambda>(s, sp). length s)"
    by (cases s) auto
qed

declare strings_Split.simps [simp del]

section \<open>Field lengths\<close>

definition genFieldLen :: "string \<Rightarrow> string \<Rightarrow> string \<Rightarrow> nat" where
  "genFieldLen s sp qual =
     (if qual = [] \<or> \<not> prefix qual s then
        (let i = strings_Index s sp
         in if i = - 1 then length s else length (take (nat i) s))
      else
        (let i = strings_Index s (qual @ sp)
         in if i = - 1 then length s else length (take (nat i + length qual) s)))"

definition fieldLen :: "string \<Rightarrow> string \<Rightarrow> nat" where
  "fieldLen s sp = genFieldLen s sp []"

definition fieldLenEscaped :: "string \<Rightarrow> string \<Rightarrow> string \<Rightarrow> nat" where
  "fieldLenEscaped s sp qual = genFieldLen s sp qual"

section \<open>Data model\<close>

text \<open>\<open>type Justification byte\<close> with the constants \<open>iota + 1\<close>.\<close>

type_synonym Justification = "8 word"

definition JustifyRight :: Justification where "JustifyRight = 1"
definition JustifyCenter :: Justification where "JustifyCenter = 2"
definition JustifyLeft :: Justification where "JustifyLeft = 3"

definition padchar :: char where "padchar = CHR '' ''"

definition newline :: string where "newline = [CHR 0x0A]"

record TextQualifier =
  On :: bool
  Qualifier :: string

text \<open>
  \<open>ColumnOverride\<close> is a Go map. Its entries are kept as the list of (key, value) pairs
  in the order in which \<open>range\<close> visits them, which Go leaves unspecified; the keys of a
  map are distinct.
\<close>

record PaddingOpts =
  Justification :: Justification
  ColumnOverride :: "(int \<times> Justification) list"
  Pad :: int

text \<open>
  The state of an \<open>Align\<close>. \<open>scanner\<close> holds the input lines not yet read (what
  \<open>bufio.Scanner\<close> will deliver, without line terminators), \<open>writer\<close> the bytes written
  so far, \<open>padder\<close> the contents of the default \<open>fieldPad\<close> buffer. \<open>columnCounts\<close> is
  the Go map \<open>map[int]int\<close>. The field \<open>filterLen\<close> is assigned only by
  \<open>FilterColumns\<close>, together with \<open>filter\<close> and as its length, so it is kept as a function
  of \<open>filter\<close> (named \<open>filterA\<close> here). Since \<open>sep\<close> is a field of the record, a
  separator that is an argument is written \<open>sp\<close>.
\<close>

record Align =
  scanner :: "string list"
  writer :: string
  sep :: string
  sepOut :: string
  columnCounts :: "int \<rightharpoonup> int"
  txtq :: TextQualifier
  padOpts :: PaddingOpts
  filterA :: "int list"
  lines :: "string list"
  padder :: string

definition filterLen :: "Align \<Rightarrow> int" where
  "filterLen a = int (length (filterA a))"

definition NewAlign :: "string list \<Rightarrow> string \<Rightarrow> TextQualifier \<Rightarrow> Align" where
  "NewAlign inp sp qu =
     \<lparr> scanner = inp, writer = [], sep = sp, sepOut = sp, columnCounts = Map.empty,
       txtq = qu,
       padOpts = \<lparr> Justification = JustifyLeft, ColumnOverride = [], Pad = 1 \<rparr>,
       filterA = [], lines = [], padder = [] \<rparr>"

definition OutputSep :: "string \<Rightarrow> Align \<Rightarrow> Align" where
  "OutputSep outsep a = a\<lparr>sepOut := outsep\<rparr>"

definition UpdatePadding :: "PaddingOpts \<Rightarrow> Align \<Rightarrow> Align" where
  "UpdatePadding p a = a\<lparr>padOpts := p\<rparr>"

definition FilterColumns :: "int list \<Rightarrow> Align \<Rightarrow> Align" where
  "FilterColumns c a = a\<lparr>filterA := c\<rparr>"

text \<open>Reading a Go map of ints yields 0 for a key that is not present.\<close>

definition lookup0 :: "(int \<rightharpoonup> int) \<Rightarrow> int \<Rightarrow> int" where
  "lookup0 m k = (case m k of None \<Rightarrow> 0 | Some v \<Rightarrow> v)"

definition columnSize :: "Align \<Rightarrow> int \<Rightarrow> int" where
  "columnSize a num = (case columnCounts a num of None \<Rightarrow> - 1 | Some v \<Rightarrow> v)"

fun contains :: "int list \<Rightarrow> int \<Rightarrow> bool" where
  "contains [] num = False"
| "contains (v # nums) num = (if v = num then True else contains nums num)"

section \<open>The measurement pass\<close>

text \<open>
  The loop \<open>for start := 0; start < len(line); { ... }\<close> of \<open>columnLength\<close>. The source
  has it twice, with \<open>fieldLenEscaped\<close> (qualifier on) and with \<open>fieldLen\<close>; the field
  length function is the parameter \<open>flen\<close>. With an empty separator the loop can fail to
  advance and then runs forever: not returning is the value \<open>None\<close>.
\<close>

partial_function (option) measure_loop ::
  "(string \<Rightarrow> nat) \<Rightarrow> string \<Rightarrow> nat \<Rightarrow> nat \<Rightarrow> int \<Rightarrow> (int \<rightharpoonup> int) \<Rightarrow> (int \<rightharpoonup> int) option"
where
  "measure_loop flen line seplen start columnNum cc =
     (if start < length line then
        measure_loop flen line seplen (start + flen (drop start line) + seplen) (columnNum + 1)
          (if int (flen (drop start line)) > lookup0 cc columnNum
           then cc(columnNum \<mapsto> int (flen (drop start line))) else cc)
      else Some cc)"

declare measure_loop.simps [code]

definition measure_line :: "Align \<Rightarrow> string \<Rightarrow> (int \<rightharpoonup> int) option" where
  "measure_line a line =
     (if On (txtq a)
      then measure_loop (\<lambda>s. fieldLenEscaped s (sep a) (Qualifier (txtq a))) line
             (length (sep a)) 0 0 (columnCounts a)
      else measure_loop (\<lambda>s. fieldLen s (sep a)) line (length (sep a)) 0 0 (columnCounts a))"

text \<open>The loop \<open>for a.scanner.Scan()\<close> over the input lines.\<close>

fun scan_loop :: "Align \<Rightarrow> string list \<Rightarrow> Align option" where
  "scan_loop a [] = Some (a\<lparr>scanner := []\<rparr>)"
| "scan_loop a (line # rest) =
     (case measure_line a line of
        None \<Rightarrow> None
      | Some cc \<Rightarrow> scan_loop (a\<lparr>columnCounts := cc, lines := lines a @ [line]\<rparr>) rest)"

definition columnLength :: "Align \<Rightarrow> Align option" where
  "columnLength a = scan_loop (a\<lparr>lines := []\<rparr>) (scanner a)"

section \<open>The padding renderer\<close>

text \<open>
  \<open>runewidth.StringWidth\<close> belongs to the library go-runewidth, which is not part of the
  repository: it is the parameter \<open>rw\<close> of \<open>countPadding\<close> and of everything that calls
  it. On printable ASCII text it returns the number of bytes.
\<close>

definition countPadding :: "(string \<Rightarrow> int) \<Rightarrow> string \<Rightarrow> int \<Rightarrow> int" where
  "countPadding rw s count =
     (let padLength = count - int (length s);
          rCount = rw s;
          wordLen = int (length s)
      in if rCount < wordLen then padLength + (wordLen - rCount) else padLength)"

text \<open>
  A \<open>Padder\<close> is passed around as the contents of its buffer: \<open>WriteString\<close> and
  \<open>WriteByte\<close> append, \<open>Bytes\<close> returns the contents, \<open>Reset\<close> empties it.
\<close>

function fill_loop :: "int \<Rightarrow> int \<Rightarrow> string \<Rightarrow> string" where
  "fill_loop i len buf = (if i < len then fill_loop (i + 1) len (buf @ [padchar]) else buf)"
  by pat_completeness auto
termination
  by (relation "measure (\<lambda>(i, len, buf). nat (len - i))") auto

declare fill_loop.simps [simp del]

definition fillWithPadding :: "string \<Rightarrow> int \<Rightarrow> string" where
  "fillWithPadding buf len = fill_loop 0 len buf"

text \<open>Go's integer division truncates towards zero.\<close>

definition go_div :: "int \<Rightarrow> int \<Rightarrow> int" where
  "go_div x y = sgn x * sgn y * (\<bar>x\<bar> div \<bar>y\<bar>)"

definition applyPadding ::
  "string \<Rightarrow> string \<Rightarrow> string \<Rightarrow> int \<Rightarrow> int \<Rightarrow> Justification \<Rightarrow> string" where
  "applyPadding buf original surroundingPad columnNum padLength just =
     (let buf1 = (if length surroundingPad > 0 then
                    (if columnNum > 0 then buf @ surroundingPad else buf)
                  else buf);
          buf2 = (if just = JustifyLeft then fillWithPadding (buf1 @ original) padLength
                  else if just = JustifyRight then fillWithPadding buf1 padLength @ original
                  else if just = JustifyCenter then
                    (if padLength > 2 then
                       fillWithPadding
                         (fillWithPadding buf1 (padLength - go_div padLength 2) @ original)
                         (go_div padLength 2)
                     else fillWithPadding (buf1 @ original) padLength)
                  else buf1)
      in if length surroundingPad > 0 then buf2 @ surroundingPad else buf2)"

section \<open>Splitting a line and rendering\<close>

text \<open>
  The loop of \<open>splitWithQual\<close>. It appends one word per round; with an empty separator it
  can fail to advance and then never returns (\<open>None\<close>).
\<close>

partial_function (option) split_loop ::
  "string \<Rightarrow> string \<Rightarrow> string \<Rightarrow> nat \<Rightarrow> string list \<Rightarrow> string list option"
where
  "split_loop s sp qual start ws =
     (if start < length s then
        split_loop s sp qual (start + genFieldLen (drop start s) sp qual + length sp)
          (ws @ [take (genFieldLen (drop start s) sp qual) (drop start s)])
      else Some ws)"

declare split_loop.simps [code]

definition splitWithQual :: "Align \<Rightarrow> string \<Rightarrow> string \<Rightarrow> string \<Rightarrow> string list option" where
  "splitWithQual a s sp qual =
     (if \<not> On (txtq a) then Some (strings_Split s sp) else split_loop s sp qual 0 [])"

text \<open>
  The loop \<open>for k, v := range a.padOpts.ColumnOverride\<close>, which replaces \<open>j\<close> at the key
  \<open>columnNum + 1\<close>.
\<close>

fun override_loop :: "(int \<times> Justification) list \<Rightarrow> int \<Rightarrow> Justification \<Rightarrow> Justification" where
  "override_loop [] columnNum j = j"
| "override_loop ((k, v) # rest) columnNum j =
     override_loop rest columnNum (if k = columnNum + 1 then v else j)"

text \<open>
  The justification of the field in column \<open>columnNum\<close>: the global one, replaced by an
  override (lines 237 to 246 of align.go).
\<close>

definition effectiveJustification :: "PaddingOpts \<Rightarrow> int \<Rightarrow> Justification" where
  "effectiveJustification p columnNum =
     (if length (ColumnOverride p) > 0
      then override_loop (ColumnOverride p) columnNum (Justification p)
      else Justification p)"

text \<open>
  The loop \<open>for _, word := range words\<close> of \<open>export\<close>; \<open>n\<close> is \<open>len(words)\<close> of the whole
  row. \<open>continue\<close> and the end of the body go on with the rest of the words, \<open>break\<close>
  returns.
\<close>

fun export_words ::
  "(string \<Rightarrow> int) \<Rightarrow> string \<Rightarrow> nat \<Rightarrow> string list \<Rightarrow> int \<Rightarrow> int \<Rightarrow> Align \<Rightarrow> Align" where
  "export_words rw surroundingPad n [] columnNum tempColumn a = a"
| "export_words rw surroundingPad n (word # rest) columnNum tempColumn a =
     (if filterLen a > 0 \<and> \<not> contains (filterA a) (columnNum + 1) then
        export_words rw surroundingPad n rest (columnNum + 1) tempColumn
          (if columnNum + 1 = int n then a\<lparr>writer := writer a @ newline\<rparr> else a)
      else
        (let j = effectiveJustification (padOpts a) columnNum;
             padLength = countPadding rw word (lookup0 (columnCounts a) columnNum);
             paddedWord = applyPadding (padder a) word surroundingPad tempColumn padLength j;
             a1 = a\<lparr>padder := []\<rparr>
         in if (filterLen a1 > 0 \<and> filterA a1 ! nat (filterLen a1 - 1) = columnNum + 1)
               \<or> columnNum + 1 = int (length paddedWord)
            then a1\<lparr>writer := writer a1 @ paddedWord @ newline\<rparr>
            else export_words rw surroundingPad n rest (columnNum + 1) (tempColumn + 1)
                   (a1\<lparr>writer := writer a1 @ paddedWord @ sepOut a1\<rparr>)))"

definition export_line :: "(string \<Rightarrow> int) \<Rightarrow> string \<Rightarrow> Align \<Rightarrow> string \<Rightarrow> Align option" where
  "export_line rw surroundingPad a line =
     (case splitWithQual a line (sep a) (Qualifier (txtq a)) of
        None \<Rightarrow> None
      | Some ws \<Rightarrow> Some (export_words rw surroundingPad (length ws) ws 0 0 a))"

text \<open>The loop \<open>for _, line := range a.lines\<close>.\<close>

fun export_lines :: "(string \<Rightarrow> int) \<Rightarrow> string \<Rightarrow> string list \<Rightarrow> Align \<Rightarrow> Align option" where
  "export_lines rw surroundingPad [] a = Some a"
| "export_lines rw surroundingPad (line # rest) a =
     (case export_line rw surroundingPad a line of
        None \<Rightarrow> None
      | Some a' \<Rightarrow> export_lines rw surroundingPad rest a')"

definition export :: "(string \<Rightarrow> int) \<Rightarrow> Align \<Rightarrow> Align option" where
  "export rw a =
     (let a1 = (if Pad (padOpts a) < 0 then a\<lparr>padOpts := (padOpts a)\<lparr>Pad := 0\<rparr>\<rparr> else a);
          surroundingPad = replicate (nat (Pad (padOpts a1))) padchar
      in export_lines rw surroundingPad (lines a1) a1)"

text \<open>\<open>Align\<close>: the measurement pass, then the rendering pass.\<close>

definition Align :: "(string \<Rightarrow> int) \<Rightarrow> Align \<Rightarrow> Align option" where
  "Align rw a = (case columnLength a of None \<Rightarrow> None | Some a' \<Rightarrow> export rw a')"

section \<open>Notions used to state the properties\<close>

text \<open>\<open>substr\<close> occurs in \<open>s\<close> at byte offset \<open>i\<close>.\<close>

definition occurs_at :: "string \<Rightarrow> string \<Rightarrow> nat \<Rightarrow> bool" where
  "occurs_at substr s i = (i \<le> length s \<and> prefix substr (drop i s))"

text \<open>
  What \<open>applyPadding\<close> writes before the field: the surrounding pad, except in the first
  rendered column.
\<close>

definition leadingPad :: "string \<Rightarrow> int \<Rightarrow> string" where
  "leadingPad surroundingPad columnNum = (if columnNum > 0 then surroundingPad else [])"

text \<open>
  The width function of the concrete runs below: the number of code points, that is of
  bytes that are not UTF-8 continuation bytes. This is what \<open>runewidth.StringWidth\<close>
  returns on text whose characters are all one cell wide, such as printable ASCII and
  the letter U+00F1 (n with tilde, the two bytes C3 B1).
\<close>

definition narrow_StringWidth :: "string \<Rightarrow> int" where
  "narrow_StringWidth s = int (length (filter (\<lambda>c. \<not> utf8_cont c) s))"

text \<open>
  A separator overlaps itself when one of its proper non-empty prefixes is also its
  suffix (as in \<open>::\<close> or \<open>,,\<close>); two instances of such a separator can overlap in a line.
\<close>

definition self_overlapping :: "string \<Rightarrow> bool" where
  "self_overlapping sp = (\<exists>k \<in> {1 ..< length sp}. take k sp = drop (length sp - k) sp)"

text \<open>
  The fields that the loops of \<open>columnLength\<close> and \<open>splitWithQual\<close> walk in the rest of a
  line, for a non-empty separator: each is \<open>genFieldLen\<close> bytes long and is followed by
  one separator length. It is used in the proofs about the two loops only.
\<close>

function fields_from :: "string \<Rightarrow> string \<Rightarrow> string \<Rightarrow> string list" where
  "fields_from rest sp qual =
     (if rest = [] \<or> sp = [] then []
      else take (genFieldLen rest sp qual) rest
             # fields_from (drop (genFieldLen rest sp qual + length sp) rest) sp qual)"
  by pat_completeness auto
termination
  by (relation "measure (\<lambda>(rest, sp, qual). length rest)") auto

declare fields_from.simps [simp del]

definition measured_fields :: "Align \<Rightarrow> string \<Rightarrow> string list" where
  "measured_fields a line =
     fields_from line (sep a) (if On (txtq a) then Qualifier (txtq a) else [])"

text \<open>The updates of the width table for a list of field lengths, from column \<open>columnNum\<close> on.\<close>

fun record_widths :: "nat list \<Rightarrow> int \<Rightarrow> (int \<rightharpoonup> int) \<Rightarrow> (int \<rightharpoonup> int)" where
  "record_widths [] columnNum cc = cc"
| "record_widths (temp # rest) columnNum cc =
     record_widths rest (columnNum + 1)
       (if int temp > lookup0 cc columnNum then cc(columnNum \<mapsto> int temp) else cc)"

section \<open>Concrete inputs\<close>

text \<open>The double quote, the usual text qualifier, and two lines that start with it.\<close>

definition dquote :: string where "dquote = [CHR 0x22]"

definition quoted_line :: string where "quoted_line = dquote @ ''a,b'' @ dquote @ '',c''"

definition unterminated_line :: string where "unterminated_line = dquote @ ''a,b''"

text \<open>Text qualifier settings: disabled, and the double quote.\<close>

definition qualifier_off :: TextQualifier where
  "qualifier_off = \<lparr> On = False, Qualifier = [] \<rparr>"

definition qualifier_on :: TextQualifier where
  "qualifier_on = \<lparr> On = True, Qualifier = dquote \<rparr>"

text \<open>
  Two input lines of one field each, rendered with Left justification and one override to
  Right justification under the key \<open>k\<close>.
\<close>

definition override_example :: "int \<Rightarrow> Align" where
  "override_example k =
     UpdatePadding \<lparr> Justification = JustifyLeft, ColumnOverride = [(k, JustifyRight)], Pad = 1 \<rparr>
       (NewAlign [''a'', ''bb''] '','' qualifier_off)"

text \<open>Twice the letter U+00F1: four bytes, two cells.\<close>

definition nn :: string where "nn = [CHR 0xC3, CHR 0xB1, CHR 0xC3, CHR 0xB1]"

text \<open>The example of the specification: two lines of three fields, default options.\<close>

definition spec_example :: Align where
  "spec_example = NewAlign [''a,bb,ccc'', ''dddd,e,f''] '','' qualifier_off"

text \<open>One line of two fields, default options.\<close>

definition two_field_example :: Align where
  "two_field_example = NewAlign [''a,b''] '','' qualifier_off"

text \<open>
  The column filter \<open>[1, 3]\<close> on one line of three fields: with the default options, with
  an empty first field, and with a surrounding pad of width 0.
\<close>

definition filter_example :: "string \<Rightarrow> Align" where
  "filter_example line = FilterColumns [1, 3] (NewAlign [line] '','' qualifier_off)"

definition filter_example_nopad :: Align where
  "filter_example_nopad =
     FilterColumns [1, 3]
       (UpdatePadding \<lparr> Justification = JustifyLeft, ColumnOverride = [], Pad = 0 \<rparr>
          (NewAlign [''a,b,c''] '','' qualifier_off))"

text \<open>The letter U+00F1 alone: two bytes, one cell.\<close>

definition n_tilde :: string where "n_tilde = [CHR 0xC3, CHR 0xB1]"

text \<open>Two lines with a different number of fields.\<close>

definition ragged_example :: Align where
  "ragged_example = NewAlign [''a,bb'', ''ccc''] '','' qualifier_off"

section \<open>The padding renderer: closed forms\<close>

lemma fill_loop_replicate: "fill_loop i len buf = buf @ replicate (nat (len - i)) padchar"
proof (induction i len buf rule: fill_loop.induct)
  case (1 i len buf)
  show ?case
  proof (cases "i < len")
    case True
    have "fill_loop i len buf = fill_loop (i + 1) len (buf @ [padchar])"
      using True by (subst fill_loop.simps) simp
    also have "\<dots> = (buf @ [padchar]) @ replicate (nat (len - (i + 1))) padchar"
      using 1 True by blast
    also have "\<dots> = buf @ replicate (Suc (nat (len - (i + 1)))) padchar"
      by simp
    also have "Suc (nat (len - (i + 1))) = nat (len - i)"
      using True by linarith
    finally show ?thesis .
  next
    case False
    then show ?thesis by (subst fill_loop.simps) simp
  qed
qed

lemma fillWithPadding_replicate: "fillWithPadding buf len = buf @ replicate (nat len) padchar"
  by (simp add: fillWithPadding_def fill_loop_replicate)

lemma go_div_2_nonneg: "0 \<le> x \<Longrightarrow> go_div x 2 = x div 2"
  by (cases "x = 0") (simp_all add: go_div_def)

lemma Justify_distinct:
  "JustifyLeft \<noteq> JustifyRight" "JustifyLeft \<noteq> JustifyCenter" "JustifyRight \<noteq> JustifyCenter"
  "JustifyRight \<noteq> JustifyLeft" "JustifyCenter \<noteq> JustifyLeft" "JustifyCenter \<noteq> JustifyRight"
  by (simp_all add: JustifyLeft_def JustifyRight_def JustifyCenter_def)

lemma applyPadding_Left:
  "applyPadding buf original sp columnNum padLength JustifyLeft =
     buf @ leadingPad sp columnNum @ original @ replicate (nat padLength) padchar @ sp"
  by (simp add: applyPadding_def leadingPad_def fillWithPadding_replicate)

lemma applyPadding_Right:
  "applyPadding buf original sp columnNum padLength JustifyRight =
     buf @ leadingPad sp columnNum @ replicate (nat padLength) padchar @ original @ sp"
  by (simp add: applyPadding_def leadingPad_def fillWithPadding_replicate Justify_distinct)

lemma applyPadding_Center_wide:
  "2 < padLength \<Longrightarrow> applyPadding buf original sp columnNum padLength JustifyCenter =
     buf @ leadingPad sp columnNum @ replicate (nat (padLength - padLength div 2)) padchar
       @ original @ replicate (nat (padLength div 2)) padchar @ sp"
  by (simp add: applyPadding_def leadingPad_def fillWithPadding_replicate Justify_distinct
      go_div_2_nonneg)

lemma applyPadding_Center_small:
  "padLength \<le> 2 \<Longrightarrow> applyPadding buf original sp columnNum padLength JustifyCenter =
     buf @ leadingPad sp columnNum @ original @ replicate (nat padLength) padchar @ sp"
  by (simp add: applyPadding_def leadingPad_def fillWithPadding_replicate Justify_distinct)

text \<open>
  C7. With Center justification and a pad length above 2, \<open>applyPadding\<close> writes
  \<open>padLength - padLength/2\<close> fill characters before the field and \<open>padLength/2\<close> after it
  (between the surrounding pads); with a pad length of at most 2 its output is the one of
  Left justification: the field, then \<open>padLength\<close> fill characters.
\<close>

theorem applyPadding_center_split:
  "(2 < padLength \<longrightarrow>
      applyPadding buf original sp columnNum padLength JustifyCenter =
        buf @ leadingPad sp columnNum @ replicate (nat (padLength - padLength div 2)) padchar
          @ original @ replicate (nat (padLength div 2)) padchar @ sp)
   \<and> (padLength \<le> 2 \<longrightarrow>
      applyPadding buf original sp columnNum padLength JustifyCenter =
        applyPadding buf original sp columnNum padLength JustifyLeft
      \<and> applyPadding buf original sp columnNum padLength JustifyCenter =
        buf @ leadingPad sp columnNum @ original @ replicate (nat padLength) padchar @ sp)"
  using applyPadding_Center_wide applyPadding_Center_small applyPadding_Left by simp

text \<open>
  At pad length 4 a one-character field gets 2 leading and 2 trailing fill characters; at
  pad length 2 it gets none before and 2 after, as with Left justification. (The field is
  in the second column, with a surrounding pad of one space on each side.)
\<close>

theorem applyPadding_center_split_witness:
  "(2::int) < 4 \<and> applyPadding [] ''x'' '' '' 1 4 JustifyCenter = ''   x   ''
   \<and> (2::int) \<le> 2 \<and> applyPadding [] ''x'' '' '' 1 2 JustifyCenter = '' x   ''
   \<and> applyPadding [] ''x'' '' '' 1 2 JustifyLeft = '' x   ''"
  using applyPadding_center_split [of 4 "[]" "''x''" "'' ''" 1]
        applyPadding_center_split [of 2 "[]" "''x''" "'' ''" 1]
  by (auto simp add: leadingPad_def padchar_def numeral_eq_Suc)

section \<open>Field lengths: \<open>genFieldLen\<close>\<close>

lemma occurs_at_Cons_0: "occurs_at substr (c # cs) 0 = prefix substr (c # cs)"
  by (simp add: occurs_at_def)

lemma occurs_at_Cons_Suc: "occurs_at substr (c # cs) (Suc j) = occurs_at substr cs j"
  by (simp add: occurs_at_def)

lemma occurs_at_Nil: "occurs_at substr [] j = (j = 0 \<and> substr = [])"
  by (auto simp: occurs_at_def)

lemma occurs_at_length: "occurs_at substr s i \<Longrightarrow> i + length substr \<le> length s"
  by (auto simp: occurs_at_def dest: prefix_length_le)

lemma strings_Index_ge: "- 1 \<le> strings_Index s substr"
  by (induction s) (auto simp: Let_def)

lemma strings_Index_absent: "strings_Index s substr = - 1 \<Longrightarrow> \<not> occurs_at substr s j"
proof (induction s arbitrary: j)
  case Nil
  then show ?case by (auto simp: occurs_at_Nil split: if_splits)
next
  case (Cons c cs)
  from Cons.prems have np: "\<not> prefix substr (c # cs)" and r: "strings_Index cs substr = - 1"
    using strings_Index_ge [of cs substr] by (auto simp: Let_def split: if_splits)
  show ?case
  proof (cases j)
    case 0
    with np show ?thesis by (simp add: occurs_at_Cons_0)
  next
    case (Suc k)
    with Cons.IH [OF r] show ?thesis by (simp add: occurs_at_Cons_Suc)
  qed
qed

lemma strings_Index_first:
  "strings_Index s substr \<noteq> - 1 \<Longrightarrow>
     0 \<le> strings_Index s substr \<and> occurs_at substr s (nat (strings_Index s substr))
     \<and> (\<forall>j < nat (strings_Index s substr). \<not> occurs_at substr s j)"
proof (induction s)
  case Nil
  then show ?case by (auto simp: occurs_at_Nil split: if_splits)
next
  case (Cons c cs)
  show ?case
  proof (cases "prefix substr (c # cs)")
    case True
    then show ?thesis by (simp add: occurs_at_Cons_0)
  next
    case False
    with Cons.prems have r: "strings_Index cs substr \<noteq> - 1"
      and e: "strings_Index (c # cs) substr = strings_Index cs substr + 1"
      by (auto simp: Let_def split: if_splits)
    from Cons.IH [OF r] have ih: "0 \<le> strings_Index cs substr"
      "occurs_at substr cs (nat (strings_Index cs substr))"
      "\<forall>j < nat (strings_Index cs substr). \<not> occurs_at substr cs j" by auto
    have n: "nat (strings_Index cs substr + 1) = Suc (nat (strings_Index cs substr))"
      using ih(1) by simp
    have "\<not> occurs_at substr (c # cs) j" if "j < Suc (nat (strings_Index cs substr))" for j
      using that False ih(3) by (cases j) (auto simp: occurs_at_Cons_0 occurs_at_Cons_Suc)
    with ih show ?thesis unfolding e n by (simp add: occurs_at_Cons_Suc)
  qed
qed

lemma strings_Index_Least:
  assumes "occurs_at substr s i"
  shows "strings_Index s substr \<noteq> - 1"
    and "nat (strings_Index s substr) = (LEAST k. occurs_at substr s k)"
proof -
  show ne: "strings_Index s substr \<noteq> - 1"
    using assms strings_Index_absent by blast
  from strings_Index_first [OF ne] show "nat (strings_Index s substr) = (LEAST k. occurs_at substr s k)"
    by (intro Least_equality [symmetric]) (auto simp: not_less [symmetric])
qed

text \<open>
  C4. When the qualifier is empty (qualifiers disabled) or \<open>s\<close> does not begin with it,
  \<open>genFieldLen\<close> returns the offset of the first occurrence of the separator in \<open>s\<close>, or
  the length of \<open>s\<close> when there is none. When \<open>s\<close> begins with the non-empty qualifier, it
  returns the offset of the first occurrence of qualifier followed by separator, plus the
  length of the qualifier, or the length of \<open>s\<close> when there is none.
\<close>

theorem genFieldLen_first_separator:
  "(qual = [] \<or> \<not> prefix qual s \<longrightarrow>
      ((\<exists>i. occurs_at sp s i) \<longrightarrow> genFieldLen s sp qual = (LEAST i. occurs_at sp s i))
      \<and> ((\<forall>i. \<not> occurs_at sp s i) \<longrightarrow> genFieldLen s sp qual = length s))
   \<and> (qual \<noteq> [] \<and> prefix qual s \<longrightarrow>
      ((\<exists>i. occurs_at (qual @ sp) s i) \<longrightarrow>
         genFieldLen s sp qual = (LEAST i. occurs_at (qual @ sp) s i) + length qual)
      \<and> ((\<forall>i. \<not> occurs_at (qual @ sp) s i) \<longrightarrow> genFieldLen s sp qual = length s))"
proof -
  have found: "length (take (nat (strings_Index s x) + m) s) = (LEAST k. occurs_at x s k) + m"
    if "occurs_at x s i" "m \<le> length x" for x i m
  proof -
    have ne: "strings_Index s x \<noteq> - 1" using that(1) by (rule strings_Index_Least)
    have "occurs_at x s (nat (strings_Index s x))" using strings_Index_first [OF ne] by simp
    then have "nat (strings_Index s x) + length x \<le> length s" by (rule occurs_at_length)
    with that(2) have "length (take (nat (strings_Index s x) + m) s) = nat (strings_Index s x) + m"
      by simp
    with strings_Index_Least(2) [OF that(1)] show ?thesis by simp
  qed
  have absent: "strings_Index s x = - 1" if "\<forall>i. \<not> occurs_at x s i" for x
    using that strings_Index_first [of s x] by blast
  show ?thesis
  proof (intro conjI impI)
    assume "qual = [] \<or> \<not> prefix qual s" "\<exists>i. occurs_at sp s i"
    then show "genFieldLen s sp qual = (LEAST i. occurs_at sp s i)"
      using found [of sp _ 0] strings_Index_Least(1) [of sp s]
      by (auto simp: genFieldLen_def Let_def)
  next
    assume "qual = [] \<or> \<not> prefix qual s" "\<forall>i. \<not> occurs_at sp s i"
    then show "genFieldLen s sp qual = length s"
      using absent [of sp] by (auto simp: genFieldLen_def Let_def)
  next
    assume "qual \<noteq> [] \<and> prefix qual s" "\<exists>i. occurs_at (qual @ sp) s i"
    then show "genFieldLen s sp qual = (LEAST i. occurs_at (qual @ sp) s i) + length qual"
      using found [of "qual @ sp" _ "length qual"] strings_Index_Least(1) [of "qual @ sp" s]
      by (auto simp: genFieldLen_def Let_def)
  next
    assume "qual \<noteq> [] \<and> prefix qual s" "\<forall>i. \<not> occurs_at (qual @ sp) s i"
    then show "genFieldLen s sp qual = length s"
      using absent [of "qual @ sp"] by (auto simp: genFieldLen_def Let_def)
  qed
qed

text \<open>
  The four cases at concrete lines: \<open>ab,c\<close> without qualifier (2), \<open>abc\<close> (3, no
  separator), \<open>"a,b",c\<close> (5, the closing quote included) and the unterminated \<open>"a,b\<close> (4).
\<close>

theorem genFieldLen_first_separator_witness:
  "(\<exists>i. occurs_at '','' ''ab,c'' i)
   \<and> genFieldLen ''ab,c'' '','' [] = (LEAST i. occurs_at '','' ''ab,c'' i)
   \<and> genFieldLen ''ab,c'' '','' [] = 2
   \<and> \<not> prefix dquote ''abc'' \<and> (\<forall>i. \<not> occurs_at '','' ''abc'' i)
   \<and> genFieldLen ''abc'' '','' dquote = length ''abc''
   \<and> dquote \<noteq> [] \<and> prefix dquote quoted_line
   \<and> (\<exists>i. occurs_at (dquote @ '','') quoted_line i)
   \<and> genFieldLen quoted_line '','' dquote = (LEAST i. occurs_at (dquote @ '','') quoted_line i) + length dquote
   \<and> genFieldLen quoted_line '','' dquote = 5
   \<and> prefix dquote unterminated_line \<and> (\<forall>i. \<not> occurs_at (dquote @ '','') unterminated_line i)
   \<and> genFieldLen unterminated_line '','' dquote = length unterminated_line"
proof -
  have e1: "\<exists>i. occurs_at '','' ''ab,c'' i"
    by (rule exI [of _ 2]) code_simp
  have a2: "\<forall>i. \<not> occurs_at '','' ''abc'' i"
    by (intro allI strings_Index_absent) code_simp
  have p2: "\<not> prefix dquote ''abc''" by code_simp
  have p3: "dquote \<noteq> [] \<and> prefix dquote quoted_line" by code_simp
  have e3: "\<exists>i. occurs_at (dquote @ '','') quoted_line i"
    by (rule exI [of _ 4]) code_simp
  have p4: "dquote \<noteq> [] \<and> prefix dquote unterminated_line" by code_simp
  have a4: "\<forall>i. \<not> occurs_at (dquote @ '','') unterminated_line i"
    by (intro allI strings_Index_absent) code_simp
  have v1: "genFieldLen ''ab,c'' '','' [] = 2" by code_simp
  have v3: "genFieldLen quoted_line '','' dquote = 5" by code_simp
  have r1: "genFieldLen ''ab,c'' '','' [] = (LEAST i. occurs_at '','' ''ab,c'' i)"
    using genFieldLen_first_separator [of "[]" "''ab,c''" "'',''"] e1 by simp
  have r2: "genFieldLen ''abc'' '','' dquote = length ''abc''"
    using genFieldLen_first_separator [of dquote "''abc''" "'',''"] a2 p2 by simp
  have r3: "genFieldLen quoted_line '','' dquote =
              (LEAST i. occurs_at (dquote @ '','') quoted_line i) + length dquote"
    using genFieldLen_first_separator [of dquote quoted_line "'',''"] e3 p3 by simp
  have r4: "genFieldLen unterminated_line '','' dquote = length unterminated_line"
    using genFieldLen_first_separator [of dquote unterminated_line "'',''"] a4 p4 by simp
  from e1 r1 v1 p2 a2 r2 p3 e3 r3 v3 p4 a4 r4 show ?thesis
    by (intro conjI) (assumption | erule conjunct1 | erule conjunct2)+
qed

section \<open>Justification overrides\<close>

lemma override_loop_lookup:
  "distinct (map fst ov) \<Longrightarrow>
     override_loop ov c j = (case map_of ov (c + 1) of Some v \<Rightarrow> v | None \<Rightarrow> j)"
proof (induction ov arbitrary: j)
  case Nil
  then show ?case by simp
next
  case (Cons kv ov)
  obtain k v where kv: "kv = (k, v)" by (cases kv)
  show ?case
  proof (cases "k = c + 1")
    case True
    with Cons.prems kv have "c + 1 \<notin> fst ` set ov" by auto
    then have "map_of ov (c + 1) = None" by (simp add: map_of_eq_None_iff)
    with Cons kv True show ?thesis by simp
  next
    case False
    with Cons kv show ?thesis by simp
  qed
qed

lemma export_words_appends:
  "\<exists>tl. writer (export_words rw sp n ws c t a) = writer a @ tl"
proof (induction ws arbitrary: c t a)
  case Nil
  then show ?case by simp
next
  case (Cons w ws)
  show ?case
  proof (cases "filterLen a > 0 \<and> \<not> contains (filterA a) (c + 1)")
    case True
    let ?a' = "if c + 1 = int n then a\<lparr>writer := writer a @ newline\<rparr> else a"
    obtain tl where "writer (export_words rw sp n ws (c + 1) t ?a') = writer ?a' @ tl"
      using Cons.IH by blast
    with True show ?thesis by (cases "c + 1 = int n") auto
  next
    case False
    let ?pw = "applyPadding (padder a) w sp t (countPadding rw w (lookup0 (columnCounts a) c))
                 (effectiveJustification (padOpts a) c)"
    let ?a' = "a\<lparr>padder := [], writer := writer a @ ?pw @ sepOut a\<rparr>"
    obtain tl where "writer (export_words rw sp n ws (c + 1) (t + 1) ?a') = writer ?a' @ tl"
      using Cons.IH by blast
    with False show ?thesis by (auto simp: Let_def filterLen_def)
  qed
qed

lemma export_words_rendered:
  assumes "\<not> (filterLen a > 0 \<and> \<not> contains (filterA a) (c + 1))"
  shows "\<exists>tl. writer (export_words rw sp n (w # ws) c t a) =
           writer a @ applyPadding (padder a) w sp t (countPadding rw w (lookup0 (columnCounts a) c))
                 (effectiveJustification (padOpts a) c) @ tl"
proof -
  let ?pw = "applyPadding (padder a) w sp t (countPadding rw w (lookup0 (columnCounts a) c))
                 (effectiveJustification (padOpts a) c)"
  let ?a' = "a\<lparr>padder := [], writer := writer a @ ?pw @ sepOut a\<rparr>"
  obtain tl where "writer (export_words rw sp n ws (c + 1) (t + 1) ?a') = writer ?a' @ tl"
    using export_words_appends by blast
  with assms show ?thesis by (auto simp: Let_def filterLen_def)
qed

text \<open>
  C8 (amended). For every field that \<open>export\<close> renders at the 0-based column index \<open>c\<close>,
  the justification passed to \<open>applyPadding\<close> is the override stored under the key \<open>c + 1\<close>
  (the 1-based column number) when \<open>ColumnOverride\<close> has that key, and the global
  \<open>Justification\<close> otherwise, in whatever order the map is traversed.
\<close>

theorem override_keyed_by_column_number:
  assumes "distinct (map fst (ColumnOverride (padOpts a)))"
    and "\<not> (filterLen a > 0 \<and> \<not> contains (filterA a) (c + 1))"
  shows "effectiveJustification (padOpts a) c =
           (case map_of (ColumnOverride (padOpts a)) (c + 1) of
              Some v \<Rightarrow> v | None \<Rightarrow> Justification (padOpts a))
         \<and> (\<exists>tl. writer (export_words rw sp n (w # ws) c t a) =
               writer a @ applyPadding (padder a) w sp t
                 (countPadding rw w (lookup0 (columnCounts a) c))
                 (case map_of (ColumnOverride (padOpts a)) (c + 1) of
                    Some v \<Rightarrow> v | None \<Rightarrow> Justification (padOpts a)) @ tl)"
proof -
  have j: "effectiveJustification (padOpts a) c =
           (case map_of (ColumnOverride (padOpts a)) (c + 1) of
              Some v \<Rightarrow> v | None \<Rightarrow> Justification (padOpts a))"
    using assms(1) by (cases "ColumnOverride (padOpts a)")
      (simp_all add: effectiveJustification_def override_loop_lookup del: override_loop.simps)
  show ?thesis using j export_words_rendered [OF assms(2), of rw sp n w ws t] by simp
qed

theorem override_keyed_by_column_number_witness:
  "distinct (map fst (ColumnOverride (padOpts (override_example 1))))
   \<and> \<not> (filterLen (override_example 1) > 0 \<and> \<not> contains (filterA (override_example 1)) (0 + 1))
   \<and> effectiveJustification (padOpts (override_example 1)) 0 = JustifyRight
   \<and> (\<exists>tl. writer (export_words narrow_StringWidth '' '' 1 [''a''] 0 0 (override_example 1))
              = ''a '' @ tl)"
proof -
  let ?a = "override_example 1"
  have h1: "distinct (map fst (ColumnOverride (padOpts ?a)))"
    by (simp add: override_example_def UpdatePadding_def)
  have h2: "\<not> (filterLen ?a > 0 \<and> \<not> contains (filterA ?a) (0 + 1))"
    by (simp add: override_example_def UpdatePadding_def NewAlign_def filterLen_def)
  have m: "(case map_of (ColumnOverride (padOpts ?a)) (0 + 1) of
              Some v \<Rightarrow> v | None \<Rightarrow> Justification (padOpts ?a)) = JustifyRight"
    by (simp add: override_example_def UpdatePadding_def)
  have st: "lookup0 (columnCounts ?a) 0 = 0" "padder ?a = []" "writer ?a = []"
    by (simp_all add: override_example_def UpdatePadding_def NewAlign_def lookup0_def)
  have pw: "applyPadding [] ''a'' '' '' 0 (countPadding narrow_StringWidth ''a'' 0) JustifyRight
              = ''a ''"
    by code_simp
  note t = override_keyed_by_column_number [OF h1 h2, of narrow_StringWidth "'' ''" 1 "''a''" "[]" 0,
      unfolded m st pw]
  from h1 h2 t show ?thesis by simp
qed

text \<open>
  The claim as stated fails: an override stored under the 0-based column index 0 is not
  used for the first column, which is rendered with the global Left justification.
\<close>

theorem override_by_index_counterexample:
  "map_of (ColumnOverride (padOpts (override_example 0))) 0 = Some JustifyRight
   \<and> effectiveJustification (padOpts (override_example 0)) 0 = JustifyLeft
   \<and> JustifyLeft \<noteq> JustifyRight
   \<and> map_option writer (Align narrow_StringWidth (override_example 0)) = Some ''a  ,bb ,''"
  by code_simp

section \<open>Fields wider than their column\<close>

text \<open>
  C9 (amended). \<open>fillWithPadding\<close> writes nothing for a length that is not positive;
  for every field for which \<open>countPadding\<close> returns a pad length that is not positive,
  \<open>applyPadding\<close> with Left, Right or Center justification emits the field's own text
  between the surrounding pads and no fill character; and \<open>countPadding\<close> is negative
  whenever the byte length of the field exceeds the column width and its display width is
  not below its byte length.
\<close>

theorem nonpositive_padding_tolerated:
  "(len \<le> 0 \<longrightarrow> fillWithPadding buf len = buf)
   \<and> (countPadding rw s count \<le> 0 \<and> just \<in> {JustifyLeft, JustifyRight, JustifyCenter} \<longrightarrow>
        applyPadding buf s sp columnNum (countPadding rw s count) just =
          buf @ leadingPad sp columnNum @ s @ sp)
   \<and> (count < int (length s) \<and> int (length s) \<le> rw s \<longrightarrow> countPadding rw s count < 0)"
proof (intro conjI impI)
  assume "len \<le> 0"
  then show "fillWithPadding buf len = buf" by (simp add: fillWithPadding_replicate)
next
  assume h: "countPadding rw s count \<le> 0 \<and> just \<in> {JustifyLeft, JustifyRight, JustifyCenter}"
  then have n: "nat (countPadding rw s count) = 0" and le2: "countPadding rw s count \<le> 2"
    by simp_all
  from h consider "just = JustifyLeft" | "just = JustifyRight" | "just = JustifyCenter" by blast
  then show "applyPadding buf s sp columnNum (countPadding rw s count) just =
          buf @ leadingPad sp columnNum @ s @ sp"
  proof cases
    case 1
    then show ?thesis by (simp add: applyPadding_Left n)
  next
    case 2
    then show ?thesis by (simp add: applyPadding_Right n)
  next
    case 3
    then show ?thesis by (simp add: applyPadding_Center_small [OF le2] n)
  qed
next
  assume "count < int (length s) \<and> int (length s) \<le> rw s"
  then show "countPadding rw s count < 0" by (simp add: countPadding_def Let_def)
qed

theorem nonpositive_padding_tolerated_witness:
  "(- 2 :: int) \<le> 0 \<and> fillWithPadding ''ab'' (- 2) = ''ab''
   \<and> countPadding narrow_StringWidth ''abc'' 1 \<le> 0
   \<and> JustifyRight \<in> {JustifyLeft, JustifyRight, JustifyCenter}
   \<and> applyPadding [] ''abc'' '' '' 1 (countPadding narrow_StringWidth ''abc'' 1) JustifyRight = '' abc ''
   \<and> (1::int) < int (length ''abc'') \<and> int (length ''abc'') \<le> narrow_StringWidth ''abc''
   \<and> countPadding narrow_StringWidth ''abc'' 1 < 0"
proof -
  have w: "narrow_StringWidth ''abc'' = 3"
    by (simp add: narrow_StringWidth_def utf8_cont_def)
  have c: "countPadding narrow_StringWidth ''abc'' 1 = - 2"
    by (simp add: countPadding_def w)
  show ?thesis
    using nonpositive_padding_tolerated [where len = "- 2" and buf = "''ab''"
        and rw = narrow_StringWidth and s = "''abc''" and count = 1 and just = JustifyRight
        and sp = "'' ''" and columnNum = 1]
      nonpositive_padding_tolerated [where len = "- 2" and buf = "[]"
        and rw = narrow_StringWidth and s = "''abc''" and count = 1 and just = JustifyRight
        and sp = "'' ''" and columnNum = 1]
    by (simp add: w c leadingPad_def)
qed

text \<open>
  The claim as stated fails for a field with multi-byte characters: its four bytes exceed
  the column width 3, yet \<open>countPadding\<close> returns 1 and one fill character is written
  after the text (followed by the surrounding pad).
\<close>

theorem longer_field_positive_padding_counterexample:
  "(3::int) < int (length nn) \<and> countPadding narrow_StringWidth nn 3 = 1
   \<and> applyPadding [] nn '' '' 0 (countPadding narrow_StringWidth nn 3) JustifyLeft = nn @ ''  ''"
  by code_simp

section \<open>Runs of \<open>Align\<close> on concrete inputs\<close>

lemmas run_simps = NewAlign_def columnLength_def measure_line_def measure_loop.simps
  fieldLen_def fieldLenEscaped_def genFieldLen_def lookup0_def Align_def export_def
  export_line_def splitWithQual_def strings_Split.simps split_loop.simps countPadding_def
  applyPadding_def fillWithPadding_replicate narrow_StringWidth_def utf8_cont_def
  effectiveJustification_def filterLen_def JustifyLeft_def JustifyRight_def JustifyCenter_def
  padchar_def newline_def FilterColumns_def UpdatePadding_def OutputSep_def
  qualifier_off_def qualifier_on_def dquote_def

text \<open>
  C1 (the code at the failing input). On the single line \<open>a,b\<close> with the default options
  and no column filter, \<open>Align\<close> writes the output separator after the last field and no
  line terminator: the test \<open>columnNum == len(paddedWord)\<close> compares the column number 2
  with the byte length 3 of the padded field.
\<close>

theorem last_field_followed_by_separator:
  "map_option writer (Align narrow_StringWidth two_field_example) = Some ''a , b ,''"
  by code_simp

text \<open>
  C2 (amended). On the two lines of the example the width table is \<open>{0:4, 1:2, 2:3}\<close>, and
  the output is, for each line, its three fields padded to these widths with one
  surrounding space and separated by the output separator, \<open>a    , bb , ccc \<close> and
  \<open>dddd , e  , f   \<close>, each followed by one terminating string, the separator or the line
  terminator.
\<close>

theorem spec_example_rendering:
  "map_option columnCounts (Align narrow_StringWidth spec_example) = Some [0 \<mapsto> 4, 1 \<mapsto> 2, 2 \<mapsto> 3]
   \<and> (\<exists>t1 t2. t1 \<in> {'','', newline} \<and> t2 \<in> {'','', newline}
        \<and> map_option writer (Align narrow_StringWidth spec_example) =
            Some (''a    , bb , ccc '' @ t1 @ ''dddd , e  , f   '' @ t2))"
proof -
  have w: "map_option writer (Align narrow_StringWidth spec_example) =
            Some (''a    , bb , ccc '' @ '','' @ ''dddd , e  , f   '' @ '','')"
    by code_simp
  have t: "map_option columnCounts (Align narrow_StringWidth spec_example) = Some [0 \<mapsto> 4, 1 \<mapsto> 2, 2 \<mapsto> 3]"
    by (simp add: spec_example_def run_simps) (rule ext, simp)
  from w have "\<exists>t1 t2. t1 \<in> {'','', newline} \<and> t2 \<in> {'','', newline}
        \<and> map_option writer (Align narrow_StringWidth spec_example) =
            Some (''a    , bb , ccc '' @ t1 @ ''dddd , e  , f   '' @ t2)"
    by blast
  with t show ?thesis by simp
qed

text \<open>The output is not the one the claim states.\<close>

theorem spec_example_output_counterexample:
  "map_option writer (Align narrow_StringWidth spec_example)
     \<noteq> Some (''a    bb  ccc'' @ newline @ ''dddd e   f'' @ newline)"
  by code_simp

text \<open>
  Under a column filter that does not retain the last column of a row, the row's output
  ends with the line terminator, whether the loop reaches the skipped last field or
  breaks before it.
\<close>

lemma skipped_last_field_terminated:
  assumes "filterLen a > 0" and "\<not> contains (filterA a) (int n)"
    and "ws \<noteq> []" and "c + int (length ws) = int n"
  shows "\<exists>out. writer (export_words rw sp n ws c t a) = writer a @ out @ newline"
  using assms
proof (induction ws arbitrary: c t a)
  case Nil
  then show ?case by simp
next
  case (Cons w ws)
  let ?pw = "applyPadding (padder a) w sp t (countPadding rw w (lookup0 (columnCounts a) c))
               (effectiveJustification (padOpts a) c)"
  let ?a' = "a\<lparr>padder := [], writer := writer a @ ?pw @ sepOut a\<rparr>"
  show ?case
  proof (cases "ws = []")
    case True
    with Cons.prems have "c + 1 = int n" by simp
    with Cons.prems True have "writer (export_words rw sp n (w # ws) c t a) = writer a @ [] @ newline"
      by simp
    then show ?thesis by blast
  next
    case False
    with Cons.prems have n: "c + 1 \<noteq> int n" and l: "(c + 1) + int (length ws) = int n"
      by (cases ws; simp)+
    show ?thesis
    proof (cases "contains (filterA a) (c + 1)")
      case skip: False
      from Cons.IH [OF Cons.prems(1,2) False l, of t] obtain out where
        "writer (export_words rw sp n ws (c + 1) t a) = writer a @ out @ newline" by blast
      with skip n Cons.prems(1) show ?thesis by simp
    next
      case render: True
      show ?thesis
      proof (cases "filterA a ! nat (filterLen a - 1) = c + 1 \<or> c + 1 = int (length ?pw)")
        case True
        with render Cons.prems(1)
        have "writer (export_words rw sp n (w # ws) c t a) = writer a @ ?pw @ newline"
          by (auto simp: Let_def filterLen_def)
        then show ?thesis by blast
      next
        case False
        have "filterLen ?a' > 0" "\<not> contains (filterA ?a') (int n)"
          using Cons.prems(1,2) by (simp_all add: filterLen_def)
        from Cons.IH [OF this \<open>ws \<noteq> []\<close> l, of "t + 1"] obtain out where
          "writer (export_words rw sp n ws (c + 1) (t + 1) ?a') = writer ?a' @ out @ newline"
          by blast
        with render False Cons.prems(1)
        have "writer (export_words rw sp n (w # ws) c t a)
                = writer a @ (?pw @ sepOut a @ out) @ newline"
          by (auto simp: Let_def filterLen_def)
        then show ?thesis by blast
      qed
    qed
  qed
qed

text \<open>
  C6 (the code at the failing inputs). With the column filter \<open>[1, 3]\<close> the line \<open>a,b,c\<close>
  is rendered as columns 1 and 3 under the default options; but a row whose first padded
  field is one byte long (an empty first field with the default pad, or \<open>a\<close> with pad
  width 0) ends after column 1, and column 3 is never written.
\<close>

theorem filter_row_cut_short:
  "map_option writer (Align narrow_StringWidth (filter_example ''a,b,c''))
     = Some (''a , c '' @ newline)
   \<and> map_option writer (Align narrow_StringWidth (filter_example '',b,c''))
     = Some ('' '' @ newline)
   \<and> map_option writer (Align narrow_StringWidth filter_example_nopad)
     = Some (''a'' @ newline)"
  by code_simp

section \<open>Empty lines\<close>

text \<open>
  C10. With the qualifier enabled, \<open>splitWithQual\<close> returns no field for an empty line and
  \<open>export\<close> leaves the state as it is for that line: nothing is written, not even a line
  terminator. With the qualifier disabled (and a non-empty separator) the empty line
  yields exactly one empty field; it is rendered by \<open>applyPadding\<close> and written, followed
  by the line terminator or the output separator, unless a column filter without column 1
  skips it, in which case the line terminator alone is written.
\<close>

theorem empty_line_rendering:
  "(On (txtq a) \<longrightarrow>
      splitWithQual a [] (sep a) (Qualifier (txtq a)) = Some []
      \<and> export_line rw surroundingPad a [] = Some a)
   \<and> (\<not> On (txtq a) \<and> sep a \<noteq> [] \<longrightarrow>
      splitWithQual a [] (sep a) (Qualifier (txtq a)) = Some [[]]
      \<and> (\<exists>a'. export_line rw surroundingPad a [] = Some a'
           \<and> (if filterLen a > 0 \<and> \<not> contains (filterA a) 1
               then writer a' = writer a @ newline
               else writer a' = writer a
                      @ applyPadding (padder a) [] surroundingPad 0
                          (countPadding rw [] (lookup0 (columnCounts a) 0))
                          (effectiveJustification (padOpts a) 0)
                      @ (if (filterLen a > 0 \<and> filterA a ! nat (filterLen a - 1) = 1)
                            \<or> 1 = int (length (applyPadding (padder a) [] surroundingPad 0
                                  (countPadding rw [] (lookup0 (columnCounts a) 0))
                                  (effectiveJustification (padOpts a) 0)))
                         then newline else sepOut a))))"
proof (intro conjI impI)
  assume on: "On (txtq a)"
  then show s: "splitWithQual a [] (sep a) (Qualifier (txtq a)) = Some []"
    by (simp add: splitWithQual_def split_loop.simps)
  then show "export_line rw surroundingPad a [] = Some a"
    by (simp add: export_line_def)
next
  assume off: "\<not> On (txtq a) \<and> sep a \<noteq> []"
  then show s: "splitWithQual a [] (sep a) (Qualifier (txtq a)) = Some [[]]"
    by (simp add: splitWithQual_def strings_Split.simps)
  then have e: "export_line rw surroundingPad a [] = Some (export_words rw surroundingPad 1 [[]] 0 0 a)"
    by (simp add: export_line_def)
  show "\<exists>a'. export_line rw surroundingPad a [] = Some a'
           \<and> (if filterLen a > 0 \<and> \<not> contains (filterA a) 1
               then writer a' = writer a @ newline
               else writer a' = writer a
                      @ applyPadding (padder a) [] surroundingPad 0
                          (countPadding rw [] (lookup0 (columnCounts a) 0))
                          (effectiveJustification (padOpts a) 0)
                      @ (if (filterLen a > 0 \<and> filterA a ! nat (filterLen a - 1) = 1)
                            \<or> 1 = int (length (applyPadding (padder a) [] surroundingPad 0
                                  (countPadding rw [] (lookup0 (columnCounts a) 0))
                                  (effectiveJustification (padOpts a) 0)))
                         then newline else sepOut a))"
    unfolding e by (auto simp: Let_def filterLen_def)
qed

theorem empty_line_rendering_witness:
  "On (txtq (NewAlign [] '','' qualifier_on))
   \<and> splitWithQual (NewAlign [] '','' qualifier_on) [] '','' dquote = Some []
   \<and> export_line narrow_StringWidth '' '' (NewAlign [] '','' qualifier_on) []
       = Some (NewAlign [] '','' qualifier_on)
   \<and> \<not> On (txtq (NewAlign [] '','' qualifier_off)) \<and> sep (NewAlign [] '','' qualifier_off) \<noteq> []
   \<and> splitWithQual (NewAlign [] '','' qualifier_off) [] '','' [] = Some [[]]
   \<and> map_option writer (export_line narrow_StringWidth '' '' (NewAlign [] '','' qualifier_off) [])
       = Some ('' '' @ newline)"
proof -
  let ?on = "NewAlign [] '','' qualifier_on" and ?off = "NewAlign [] '','' qualifier_off"
  have on: "On (txtq ?on)" "sep ?on = '',''" "Qualifier (txtq ?on) = dquote"
    by (simp_all add: NewAlign_def qualifier_on_def)
  have off: "\<not> On (txtq ?off) \<and> sep ?off \<noteq> []" "sep ?off = '',''" "Qualifier (txtq ?off) = []"
    by (simp_all add: NewAlign_def qualifier_off_def)
  have w: "map_option writer (export_line narrow_StringWidth '' '' ?off []) = Some ('' '' @ newline)"
    by code_simp
  from empty_line_rendering [of ?on narrow_StringWidth "'' ''"] on
  have 1: "splitWithQual ?on [] '','' dquote = Some []"
    "export_line narrow_StringWidth '' '' ?on [] = Some ?on" by simp_all
  from empty_line_rendering [of ?off narrow_StringWidth "'' ''"] off
  have 2: "splitWithQual ?off [] '','' [] = Some [[]]" by simp
  from on(1) 1 off(1) 2 w show ?thesis by simp
qed

section \<open>Splitting: lines without separator, lines ending in a separator\<close>

lemma occurs_at_qualified:
  assumes "occurs_at (qual @ sp) s i"
  shows "occurs_at sp s (i + length qual)"
proof -
  from assms obtain r where r: "drop i s = qual @ sp @ r" and i: "i \<le> length s"
    by (auto simp: occurs_at_def prefix_def)
  have "drop (i + length qual) s = drop (length qual) (drop i s)"
    by (simp add: add.commute)
  with r have d: "drop (i + length qual) s = sp @ r" by simp
  from r have "length (drop i s) \<ge> length qual" by simp
  with i have "i + length qual \<le> length s" by simp
  with d show ?thesis by (simp add: occurs_at_def)
qed

lemma genFieldLen_absent:
  assumes "\<forall>i. \<not> occurs_at sp s i"
  shows "genFieldLen s sp qual = length s"
proof -
  have 1: "strings_Index s sp = - 1"
    using assms strings_Index_first [of s sp] by blast
  have "\<forall>i. \<not> occurs_at (qual @ sp) s i"
    using assms occurs_at_qualified by blast
  then have 2: "strings_Index s (qual @ sp) = - 1"
    using strings_Index_first [of s "qual @ sp"] by blast
  show ?thesis by (simp add: genFieldLen_def 1 2)
qed

lemma split_loop_whole:
  assumes "s \<noteq> []" and "genFieldLen s sp qual = length s"
  shows "split_loop s sp qual 0 [] = Some [s]"
proof -
  have "split_loop s sp qual 0 [] = split_loop s sp qual (length s + length sp) [s]"
    using assms by (subst split_loop.simps) simp
  also have "\<dots> = Some [s]"
    by (subst split_loop.simps) simp
  finally show ?thesis .
qed

lemma strings_Split_absent:
  assumes "\<forall>i. \<not> occurs_at sp s i"
  shows "strings_Split s sp = [s]"
proof -
  have ne: "sp \<noteq> []"
    using assms [rule_format, of 0] by (auto simp: occurs_at_def)
  have "strings_Index s sp = - 1"
    using assms strings_Index_first [of s sp] by blast
  with ne show ?thesis by (subst strings_Split.simps) simp
qed

lemma overlap_border:
  assumes "i < length s" and "length s < i + length sp" and "prefix sp (drop i (s @ sp))"
  shows "self_overlapping sp"
proof -
  let ?u = "drop i s"
  from assms(1) have u: "drop i (s @ sp) = ?u @ sp" by simp
  have lu: "length ?u = length s - i" by simp
  from assms(3) u have "prefix sp (?u @ sp)" by simp
  then consider "prefix sp ?u" | us where "sp = ?u @ us" "prefix us sp"
    by (auto simp: prefix_append)
  then show ?thesis
  proof cases
    case 1
    then have "length sp \<le> length ?u" by (rule prefix_length_le)
    with assms(1,2) lu have False by linarith
    then show ?thesis ..
  next
    case 2
    let ?k = "length us"
    from 2(1) have len: "length sp = length ?u + ?k" by (metis length_append)
    from assms(1,2) lu len have k: "1 \<le> ?k" "?k < length sp" by arith+
    from 2(2) have t: "take ?k sp = us" by (auto simp: prefix_def)
    have "drop (length sp - ?k) sp = drop (length ?u) (?u @ us)"
      using len 2(1) by simp
    then have d: "drop (length sp - ?k) sp = us" by simp
    from t d have "take ?k sp = drop (length sp - ?k) sp" by simp
    moreover from k have "?k \<in> {1 ..< length sp}" by simp
    ultimately show ?thesis unfolding self_overlapping_def by blast
  qed
qed

lemma strings_Split_trailing:
  assumes "sp \<noteq> []" and "\<not> self_overlapping sp"
  shows "\<exists>ws. strings_Split (s @ sp) sp = ws @ [[]]"
proof (induction "length s" arbitrary: s rule: less_induct)
  case less
  let ?line = "s @ sp" and ?n = "length s"
  have occ: "occurs_at sp ?line ?n" by (simp add: occurs_at_def)
  then have ne: "strings_Index ?line sp \<noteq> - 1" using strings_Index_absent by blast
  let ?i = "nat (strings_Index ?line sp)"
  from strings_Index_first [OF ne] have i0: "0 \<le> strings_Index ?line sp"
    and io: "occurs_at sp ?line ?i" and il: "\<forall>j < ?i. \<not> occurs_at sp ?line j" by auto
  from il occ have le: "?i \<le> ?n" by (meson not_less)
  have step: "strings_Split ?line sp =
                take ?i ?line # strings_Split (drop (?i + length sp) ?line) sp"
    using assms(1) i0 by (subst strings_Split.simps) simp
  show ?case
  proof (cases "?i = ?n")
    case True
    have "strings_Split [] sp = [[]]"
      using assms(1) by (subst strings_Split.simps) simp
    with step True have "strings_Split ?line sp = [s] @ [[]]" by simp
    then show ?thesis by blast
  next
    case False
    with le have lt: "?i < ?n" by simp
    have "?i + length sp \<le> ?n"
    proof (rule ccontr)
      assume "\<not> ?i + length sp \<le> ?n"
      then have "?n < ?i + length sp" by simp
      moreover from io have "prefix sp (drop ?i ?line)" by (simp add: occurs_at_def)
      ultimately have "self_overlapping sp" using lt by (intro overlap_border)
      with assms(2) show False by simp
    qed
    then have d: "drop (?i + length sp) ?line = drop (?i + length sp) s @ sp" by simp
    have "0 < length sp" using assms(1) by simp
    with lt have "length s - (?i + length sp) < length s" by arith
    then have "length (drop (?i + length sp) s) < length s" by simp
    from less [OF this] obtain ws where
      "strings_Split (drop (?i + length sp) s @ sp) sp = ws @ [[]]" by blast
    with step d have "strings_Split ?line sp = (take ?i ?line # ws) @ [[]]" by simp
    then show ?thesis by blast
  qed
qed

text \<open>
  C5 (amended). For every non-empty line and every qualifier configuration, a line with
  no occurrence of the separator yields exactly one field, the whole line. With the
  qualifier disabled and a non-empty separator that does not overlap itself (every
  one-byte separator), a line ending in the separator yields an empty field as its last
  field.
\<close>

theorem splitWithQual_edge_cases:
  "(line \<noteq> [] \<and> (\<forall>i. \<not> occurs_at sp line i) \<longrightarrow> splitWithQual a line sp qual = Some [line])
   \<and> (\<not> On (txtq a) \<and> sp \<noteq> [] \<and> \<not> self_overlapping sp \<and> suffix sp line \<longrightarrow>
        (\<exists>ws. splitWithQual a line sp qual = Some (ws @ [[]])))"
proof (intro conjI impI)
  assume h: "line \<noteq> [] \<and> (\<forall>i. \<not> occurs_at sp line i)"
  then have "genFieldLen line sp qual = length line" by (simp add: genFieldLen_absent)
  with h have "split_loop line sp qual 0 [] = Some [line]" by (simp add: split_loop_whole)
  moreover from h have "strings_Split line sp = [line]" by (simp add: strings_Split_absent)
  ultimately show "splitWithQual a line sp qual = Some [line]"
    by (simp add: splitWithQual_def)
next
  assume h: "\<not> On (txtq a) \<and> sp \<noteq> [] \<and> \<not> self_overlapping sp \<and> suffix sp line"
  then obtain s where "line = s @ sp" by (auto simp: suffix_def)
  with h strings_Split_trailing [of sp s] show "\<exists>ws. splitWithQual a line sp qual = Some (ws @ [[]])"
    by (simp add: splitWithQual_def)
qed

theorem splitWithQual_edge_cases_witness:
  "''abc'' \<noteq> [] \<and> (\<forall>i. \<not> occurs_at '','' ''abc'' i)
   \<and> splitWithQual (NewAlign [] '','' qualifier_on) ''abc'' '','' dquote = Some [''abc'']
   \<and> \<not> On (txtq (NewAlign [] '','' qualifier_off)) \<and> '','' \<noteq> [] \<and> \<not> self_overlapping '',''
   \<and> suffix '','' ''a,''
   \<and> splitWithQual (NewAlign [] '','' qualifier_off) ''a,'' '','' [] = Some [''a'', []]"
proof -
  let ?on = "NewAlign [] '','' qualifier_on" and ?off = "NewAlign [] '','' qualifier_off"
  have a: "''abc'' \<noteq> [] \<and> (\<forall>i. \<not> occurs_at '','' ''abc'' i)"
    by (intro conjI allI strings_Index_absent) code_simp+
  have h: "\<not> On (txtq ?off) \<and> '','' \<noteq> [] \<and> \<not> self_overlapping '','' \<and> suffix '','' ''a,''"
    by code_simp
  have v: "splitWithQual ?off ''a,'' '','' [] = Some [''a'', []]" by code_simp
  from splitWithQual_edge_cases [of "''abc''" "'',''" ?on dquote] a
  have 1: "splitWithQual ?on ''abc'' '','' dquote = Some [''abc'']" by blast
  from splitWithQual_edge_cases [of "''a,''" "'',''" ?off "[]"] h
  have 2: "\<exists>ws. splitWithQual ?off ''a,'' '','' [] = Some (ws @ [[]])" by blast
  from a 1 h v show ?thesis by blast
qed

text \<open>
  The claim as stated fails: with the qualifier enabled the line \<open>a,\<close> yields the single
  field \<open>a\<close>, and with the qualifier disabled the line \<open>a:::\<close>, which ends in the separator
  \<open>::\<close>, yields \<open>a\<close> and \<open>:\<close>.
\<close>

theorem trailing_field_counterexample:
  "suffix '','' ''a,''
   \<and> splitWithQual (NewAlign [] '','' qualifier_on) ''a,'' '','' dquote = Some [''a'']
   \<and> suffix ''::'' ''a:::''
   \<and> splitWithQual (NewAlign [] ''::'' qualifier_off) ''a:::'' ''::'' [] = Some [''a'', '':'']"
  by code_simp

section \<open>The width table after the measurement pass\<close>

lemma genFieldLen_le: "genFieldLen s sp qual \<le> length s"
  by (simp add: genFieldLen_def Let_def)

lemma split_loop_fields:
  assumes "sp \<noteq> []"
  shows "split_loop s sp qual start ws = Some (ws @ fields_from (drop start s) sp qual)"
proof (induction "length s - start" arbitrary: start ws rule: less_induct)
  case less
  show ?case
  proof (cases "start < length s")
    case True
    let ?n = "genFieldLen (drop start s) sp qual"
    have "0 < length sp" using assms by simp
    with True have "length s - (start + ?n + length sp) < length s - start" by arith
    from less [OF this]
    have ih: "split_loop s sp qual (start + ?n + length sp) (ws @ [take ?n (drop start s)]) =
                Some ((ws @ [take ?n (drop start s)])
                  @ fields_from (drop (start + ?n + length sp) s) sp qual)" .
    have d: "drop (?n + length sp) (drop start s) = drop (start + ?n + length sp) s"
      by (simp add: add.commute add.left_commute)
    have f: "fields_from (drop start s) sp qual =
               take ?n (drop start s) # fields_from (drop (start + ?n + length sp) s) sp qual"
      using True assms by (subst fields_from.simps) (simp add: d del: drop_drop)
    have "split_loop s sp qual start ws =
            split_loop s sp qual (start + ?n + length sp) (ws @ [take ?n (drop start s)])"
      using True by (subst split_loop.simps) simp
    with ih f show ?thesis by simp
  next
    case False
    then have "fields_from (drop start s) sp qual = []"
      by (subst fields_from.simps) simp
    moreover from False have "split_loop s sp qual start ws = Some ws"
      by (subst split_loop.simps) simp
    ultimately show ?thesis by simp
  qed
qed

lemma measure_loop_fields:
  assumes "sp \<noteq> []"
  shows "measure_loop (\<lambda>x. genFieldLen x sp qual) line (length sp) start c cc =
           Some (record_widths (map length (fields_from (drop start line) sp qual)) c cc)"
proof (induction "length line - start" arbitrary: start c cc rule: less_induct)
  case less
  show ?case
  proof (cases "start < length line")
    case True
    let ?n = "genFieldLen (drop start line) sp qual"
    let ?cc = "if int ?n > lookup0 cc c then cc(c \<mapsto> int ?n) else cc"
    have "0 < length sp" using assms by simp
    with True have "length line - (start + ?n + length sp) < length line - start" by arith
    from less [OF this]
    have ih: "measure_loop (\<lambda>x. genFieldLen x sp qual) line (length sp)
                (start + ?n + length sp) (c + 1) ?cc =
              Some (record_widths
                (map length (fields_from (drop (start + ?n + length sp) line) sp qual))
                (c + 1) ?cc)" .
    have d: "drop (?n + length sp) (drop start line) = drop (start + ?n + length sp) line"
      by (simp add: add.commute add.left_commute)
    have f: "fields_from (drop start line) sp qual =
               take ?n (drop start line)
                 # fields_from (drop (start + ?n + length sp) line) sp qual"
      using True assms by (subst fields_from.simps) (simp add: d del: drop_drop)
    have l: "length (take ?n (drop start line)) = ?n"
      using genFieldLen_le [of "drop start line" sp qual] by simp
    have "measure_loop (\<lambda>x. genFieldLen x sp qual) line (length sp) start c cc =
            measure_loop (\<lambda>x. genFieldLen x sp qual) line (length sp)
              (start + ?n + length sp) (c + 1) ?cc"
      using True by (subst measure_loop.simps) simp
    with ih show ?thesis unfolding f by (simp add: l del: length_take)
  next
    case False
    then have "fields_from (drop start line) sp qual = []"
      by (subst fields_from.simps) simp
    moreover from False
    have "measure_loop (\<lambda>x. genFieldLen x sp qual) line (length sp) start c cc = Some cc"
      by (subst measure_loop.simps) simp
    ultimately show ?thesis by simp
  qed
qed

lemma strings_Split_fields:
  assumes "sp \<noteq> []"
  shows "strings_Split s sp = fields_from s sp [] \<or> strings_Split s sp = fields_from s sp [] @ [[]]"
proof (induction "length s" arbitrary: s rule: less_induct)
  case less
  show ?case
  proof (cases "s = []")
    case True
    have "strings_Split [] sp = [[]]" using assms by (subst strings_Split.simps) simp
    moreover have "fields_from [] sp [] = []" by (subst fields_from.simps) simp
    ultimately show ?thesis using True by simp
  next
    case False
    let ?n = "genFieldLen s sp []"
    have f: "fields_from s sp [] = take ?n s # fields_from (drop (?n + length sp) s) sp []"
      using False assms by (subst fields_from.simps) simp
    show ?thesis
    proof (cases "strings_Index s sp = - 1")
      case True
      then have n: "?n = length s" by (simp add: genFieldLen_def)
      have "fields_from [] sp [] = []" by (subst fields_from.simps) simp
      with f n have "fields_from s sp [] = [s]" by simp
      moreover from True assms have "strings_Split s sp = [s]"
        by (subst strings_Split.simps) simp
      ultimately show ?thesis by simp
    next
      case ne: False
      from strings_Index_first [OF ne] have i0: "0 \<le> strings_Index s sp"
        and io: "occurs_at sp s (nat (strings_Index s sp))" by auto
      from io have "nat (strings_Index s sp) \<le> length s" by (simp add: occurs_at_def)
      with ne have n: "?n = nat (strings_Index s sp)" by (simp add: genFieldLen_def)
      have sp: "strings_Split s sp = take ?n s # strings_Split (drop (?n + length sp) s) sp"
        using assms i0 n by (subst strings_Split.simps) simp
      have "0 < length sp" using assms by simp
      with False have "length (drop (?n + length sp) s) < length s" by simp
      from less [OF this] sp f show ?thesis by auto
    qed
  qed
qed


lemma record_widths_step:
  "lookup0 cc x \<le> lookup0 (if int w > lookup0 cc c then cc(c \<mapsto> int w) else cc) x"
  by (simp add: lookup0_def)

lemma record_widths_mono: "lookup0 cc x \<le> lookup0 (record_widths ws c cc) x"
proof (induction ws arbitrary: c cc)
  case Nil
  then show ?case by simp
next
  case (Cons w ws)
  let ?cc = "if int w > lookup0 cc c then cc(c \<mapsto> int w) else cc"
  have "lookup0 cc x \<le> lookup0 ?cc x" by (rule record_widths_step)
  also have "\<dots> \<le> lookup0 (record_widths ws (c + 1) ?cc) x" by (rule Cons.IH)
  finally show ?case by simp
qed

lemma record_widths_bound:
  "k < length ws \<Longrightarrow> int (ws ! k) \<le> lookup0 (record_widths ws c cc) (c + int k)"
proof (induction ws arbitrary: c cc k)
  case Nil
  then show ?case by simp
next
  case (Cons w ws)
  let ?cc = "if int w > lookup0 cc c then cc(c \<mapsto> int w) else cc"
  show ?case
  proof (cases k)
    case 0
    have "int w \<le> lookup0 ?cc c" by (simp add: lookup0_def)
    also have "\<dots> \<le> lookup0 (record_widths ws (c + 1) ?cc) c" by (rule record_widths_mono)
    finally show ?thesis using 0 by simp
  next
    case (Suc j)
    with Cons.prems have "j < length ws" by simp
    from Cons.IH [OF this, of "c + 1" ?cc] Suc show ?thesis by (simp add: add.assoc)
  qed
qed

lemma record_widths_origin:
  "record_widths ws c cc x = Some v \<Longrightarrow>
     cc x = Some v \<or> (\<exists>k < length ws. x = c + int k \<and> v = int (ws ! k))"
proof (induction ws arbitrary: c cc)
  case Nil
  then show ?case by simp
next
  case (Cons w ws)
  let ?cc = "if int w > lookup0 cc c then cc(c \<mapsto> int w) else cc"
  from Cons.prems have "record_widths ws (c + 1) ?cc x = Some v" by simp
  from Cons.IH [OF this]
  consider "?cc x = Some v" | k where "k < length ws" "x = c + 1 + int k" "v = int (ws ! k)"
    by blast
  then show ?case
  proof cases
    case 1
    then have "cc x = Some v \<or> (x = c \<and> v = int w)" by (auto split: if_splits)
    then show ?thesis by (elim disjE) (simp, intro disjI2 exI [of _ 0], simp)
  next
    case 2
    then have "Suc k < length (w # ws) \<and> x = c + int (Suc k) \<and> v = int ((w # ws) ! Suc k)"
      by simp
    then show ?thesis by blast
  qed
qed

lemma measure_line_fields:
  assumes "sep a \<noteq> []"
  shows "measure_line a line =
           Some (record_widths (map length (measured_fields a line)) 0 (columnCounts a))"
  using measure_loop_fields [OF assms, of "Qualifier (txtq a)" line 0 0 "columnCounts a"]
    measure_loop_fields [OF assms, of "[]" line 0 0 "columnCounts a"]
  by (simp add: measure_line_def measured_fields_def fieldLen_def fieldLenEscaped_def)

lemma splitWithQual_fields:
  assumes "sep a \<noteq> []"
  shows "splitWithQual a line (sep a) (Qualifier (txtq a)) = Some (measured_fields a line)
         \<or> splitWithQual a line (sep a) (Qualifier (txtq a)) = Some (measured_fields a line @ [[]])"
  using split_loop_fields [OF assms, of line "Qualifier (txtq a)" 0 "[]"]
    strings_Split_fields [OF assms, of line]
  by (auto simp: splitWithQual_def measured_fields_def)

lemma scan_loop_invariant:
  assumes "sep a \<noteq> []"
  shows "\<exists>a'. scan_loop a ls = Some a' \<and> sep a' = sep a \<and> txtq a' = txtq a
           \<and> lines a' = lines a @ ls
           \<and> (\<forall>x. lookup0 (columnCounts a) x \<le> lookup0 (columnCounts a') x)
           \<and> (\<forall>line \<in> set ls. \<forall>k < length (measured_fields a line).
                 int (length (measured_fields a line ! k)) \<le> lookup0 (columnCounts a') (int k))
           \<and> (\<forall>x v. columnCounts a' x = Some v \<longrightarrow>
                 columnCounts a x = Some v
                 \<or> (\<exists>line \<in> set ls. \<exists>k < length (measured_fields a line).
                       x = int k \<and> v = int (length (measured_fields a line ! k))))"
  using assms
proof (induction ls arbitrary: a)
  case Nil
  then show ?case by simp
next
  case (Cons line ls)
  let ?ws = "map length (measured_fields a line)"
  let ?cc = "record_widths ?ws 0 (columnCounts a)"
  let ?a1 = "a\<lparr>columnCounts := ?cc, lines := lines a @ [line]\<rparr>"
  have ml: "measure_line a line = Some ?cc" using Cons.prems by (rule measure_line_fields)
  have mf: "measured_fields ?a1 l = measured_fields a l" for l
    by (simp add: measured_fields_def)
  have "sep ?a1 \<noteq> []" using Cons.prems by simp
  from Cons.IH [OF this] obtain a' where a': "scan_loop ?a1 ls = Some a'"
    "sep a' = sep a" "txtq a' = txtq a" "lines a' = lines a @ line # ls"
    and mono: "\<forall>x. lookup0 ?cc x \<le> lookup0 (columnCounts a') x"
    and bound: "\<forall>l \<in> set ls. \<forall>k < length (measured_fields a l).
                 int (length (measured_fields a l ! k)) \<le> lookup0 (columnCounts a') (int k)"
    and origin: "\<forall>x v. columnCounts a' x = Some v \<longrightarrow>
                 ?cc x = Some v
                 \<or> (\<exists>l \<in> set ls. \<exists>k < length (measured_fields a l).
                       x = int k \<and> v = int (length (measured_fields a l ! k)))"
    unfolding mf by auto
  have s: "scan_loop a (line # ls) = Some a'" using ml a'(1) by simp
  have m: "lookup0 (columnCounts a) x \<le> lookup0 (columnCounts a') x" for x
    using record_widths_mono [of "columnCounts a" x ?ws 0] mono by (meson order_trans)
  have b: "int (length (measured_fields a line ! k)) \<le> lookup0 (columnCounts a') (int k)"
    if "k < length (measured_fields a line)" for k
  proof -
    from that have "int (?ws ! k) \<le> lookup0 ?cc (0 + int k)"
      by (intro record_widths_bound) simp
    with that mono show ?thesis by (force intro: order_trans)
  qed
  have o: "columnCounts a x = Some v
           \<or> (\<exists>l \<in> set (line # ls). \<exists>k < length (measured_fields a l).
                 x = int k \<and> v = int (length (measured_fields a l ! k)))"
    if "columnCounts a' x = Some v" for x v
  proof -
    from origin that consider "?cc x = Some v"
      | "\<exists>l \<in> set ls. \<exists>k < length (measured_fields a l).
                       x = int k \<and> v = int (length (measured_fields a l ! k))" by blast
    then show ?thesis
    proof cases
      case 1
      from record_widths_origin [OF 1] show ?thesis by auto
    next
      case 2
      then show ?thesis by auto
    qed
  qed
  from s a'(2,3,4) m b bound o show ?case by auto
qed


lemma columnLength_invariant:
  assumes "sep a \<noteq> []" and "columnCounts a = Map.empty"
  shows "\<exists>a'. columnLength a = Some a' \<and> lines a' = scanner a
           \<and> (\<forall>x. 0 \<le> lookup0 (columnCounts a') x)
           \<and> (\<forall>line \<in> set (scanner a). \<forall>k < length (measured_fields a line).
                 int (length (measured_fields a line ! k)) \<le> lookup0 (columnCounts a') (int k))
           \<and> (\<forall>x v. columnCounts a' x = Some v \<longrightarrow>
                 (\<exists>line \<in> set (scanner a). \<exists>k < length (measured_fields a line).
                       x = int k \<and> v = int (length (measured_fields a line ! k))))"
proof -
  let ?a0 = "a\<lparr>lines := []\<rparr>"
  have mf: "measured_fields ?a0 l = measured_fields a l" for l
    by (simp add: measured_fields_def)
  have "sep ?a0 \<noteq> []" using assms(1) by simp
  from scan_loop_invariant [OF this, of "scanner a"]
  obtain a' where a': "scan_loop ?a0 (scanner a) = Some a'" "lines a' = lines ?a0 @ scanner a"
    and mono: "\<forall>x. lookup0 (columnCounts ?a0) x \<le> lookup0 (columnCounts a') x"
    and bound: "\<forall>line \<in> set (scanner a). \<forall>k < length (measured_fields a line).
                 int (length (measured_fields a line ! k)) \<le> lookup0 (columnCounts a') (int k)"
    and origin: "\<forall>x v. columnCounts a' x = Some v \<longrightarrow>
                 columnCounts ?a0 x = Some v
                 \<or> (\<exists>line \<in> set (scanner a). \<exists>k < length (measured_fields a line).
                       x = int k \<and> v = int (length (measured_fields a line ! k)))"
    unfolding mf by blast
  have 1: "columnLength a = Some a'" using a'(1) by (simp add: columnLength_def)
  have 2: "lines a' = scanner a" using a'(2) by simp
  have 3: "\<forall>x. 0 \<le> lookup0 (columnCounts a') x"
    using mono assms(2) by (simp add: lookup0_def)
  have 4: "\<forall>x v. columnCounts a' x = Some v \<longrightarrow>
                 (\<exists>line \<in> set (scanner a). \<exists>k < length (measured_fields a line).
                       x = int k \<and> v = int (length (measured_fields a line ! k)))"
    using origin assms(2) by simp
  from 1 2 3 bound 4 show ?thesis by blast
qed

text \<open>
  C3 (amended). With a non-empty separator and a fresh width table, \<open>columnLength\<close>
  returns and keeps the input lines; for every column index that appears in a line (as
  \<open>splitWithQual\<close> splits it) the width table, read as \<open>export\<close> reads it (a missing key
  reads 0), is the maximum byte length among the fields at that index across all lines: it
  bounds each of them and is the length of one of them; and \<open>columnSize\<close> returns \<open>-1\<close> for a
  column index that appears in no line.
\<close>

theorem columnLength_max_byte_length:
  assumes "sep a \<noteq> []" and "columnCounts a = Map.empty"
  shows "\<exists>a'. columnLength a = Some a' \<and> lines a' = scanner a
           \<and> (\<forall>line \<in> set (scanner a). \<exists>ws.
                 splitWithQual a line (sep a) (Qualifier (txtq a)) = Some ws
                 \<and> (\<forall>k < length ws.
                      int (length (ws ! k)) \<le> lookup0 (columnCounts a') (int k)
                      \<and> (\<exists>line' \<in> set (scanner a). \<exists>ws'.
                            splitWithQual a line' (sep a) (Qualifier (txtq a)) = Some ws'
                            \<and> k < length ws'
                            \<and> lookup0 (columnCounts a') (int k) = int (length (ws' ! k)))))
           \<and> (\<forall>c. (\<forall>line \<in> set (scanner a). \<forall>ws.
                       splitWithQual a line (sep a) (Qualifier (txtq a)) = Some ws
                       \<longrightarrow> \<not> (0 \<le> c \<and> nat c < length ws))
                 \<longrightarrow> columnSize a' c = - 1)"
proof -
  let ?split = "\<lambda>line. splitWithQual a line (sep a) (Qualifier (txtq a))"
  let ?F = "measured_fields a"
  from columnLength_invariant [OF assms] obtain a' where a': "columnLength a = Some a'"
    "lines a' = scanner a"
    and nonneg: "\<And>x. 0 \<le> lookup0 (columnCounts a') x"
    and bound: "\<And>line k. line \<in> set (scanner a) \<Longrightarrow> k < length (?F line) \<Longrightarrow>
                 int (length (?F line ! k)) \<le> lookup0 (columnCounts a') (int k)"
    and origin: "\<And>x v. columnCounts a' x = Some v \<Longrightarrow>
                 \<exists>line \<in> set (scanner a). \<exists>k < length (?F line).
                       x = int k \<and> v = int (length (?F line ! k))"
    by blast
  have shape: "\<exists>ws. ?split line = Some ws \<and> length (?F line) \<le> length ws
                 \<and> (\<forall>k < length (?F line). ws ! k = ?F line ! k)
                 \<and> (\<forall>k < length ws. length (?F line) \<le> k \<longrightarrow> ws ! k = [])" for line
    using splitWithQual_fields [OF assms(1), of line]
    by (elim disjE) (auto simp: nth_append)
  have le: "int (length (ws ! k)) \<le> lookup0 (columnCounts a') (int k)"
    if "line \<in> set (scanner a)" "?split line = Some ws" "k < length ws" for line ws k
  proof (cases "k < length (?F line)")
    case True
    with shape [of line] that(2) have "ws ! k = ?F line ! k" by auto
    with bound [OF that(1) True] show ?thesis by simp
  next
    case False
    with shape [of line] that(2,3) have "ws ! k = []" by auto
    with nonneg [of "int k"] show ?thesis by simp
  qed
  have attained: "\<exists>line' \<in> set (scanner a). \<exists>ws'. ?split line' = Some ws' \<and> k < length ws'
                    \<and> lookup0 (columnCounts a') (int k) = int (length (ws' ! k))"
    if "line \<in> set (scanner a)" "?split line = Some ws" "k < length ws" for line ws k
  proof (cases "columnCounts a' (int k)")
    case None
    then have z: "lookup0 (columnCounts a') (int k) = 0" by (simp add: lookup0_def)
    with le [OF that] have "lookup0 (columnCounts a') (int k) = int (length (ws ! k))" by simp
    with that show ?thesis by blast
  next
    case (Some v)
    from origin [OF Some] obtain line' k' where l: "line' \<in> set (scanner a)"
      "k' < length (?F line')" "int k = int k'" "v = int (length (?F line' ! k'))" by blast
    from shape [of line'] obtain ws' where ws': "?split line' = Some ws'"
      "length (?F line') \<le> length ws'" "\<forall>j < length (?F line'). ws' ! j = ?F line' ! j" by blast
    from l(2,3) ws' have k: "k < length ws'" and "ws' ! k = ?F line' ! k'" by auto
    with Some l(4) have "lookup0 (columnCounts a') (int k) = int (length (ws' ! k))"
      by (simp add: lookup0_def)
    with l(1) ws'(1) k show ?thesis by blast
  qed
  have unseen: "columnSize a' c = - 1"
    if h: "\<forall>line \<in> set (scanner a). \<forall>ws. ?split line = Some ws \<longrightarrow> \<not> (0 \<le> c \<and> nat c < length ws)"
    for c
  proof (cases "columnCounts a' c")
    case None
    then show ?thesis by (simp add: columnSize_def)
  next
    case (Some v)
    from origin [OF Some] obtain line k where l: "line \<in> set (scanner a)"
      "k < length (?F line)" "c = int k" by blast
    from shape [of line] obtain ws where "?split line = Some ws" "length (?F line) \<le> length ws"
      by blast
    with l h show ?thesis by force
  qed
  have "\<forall>line \<in> set (scanner a). \<exists>ws. ?split line = Some ws
          \<and> (\<forall>k < length ws. int (length (ws ! k)) \<le> lookup0 (columnCounts a') (int k)
               \<and> (\<exists>line' \<in> set (scanner a). \<exists>ws'. ?split line' = Some ws' \<and> k < length ws'
                     \<and> lookup0 (columnCounts a') (int k) = int (length (ws' ! k))))"
  proof
    fix line assume in_: "line \<in> set (scanner a)"
    from shape [of line] obtain ws where ws: "?split line = Some ws" by blast
    from le [OF in_ ws] attained [OF in_ ws] ws
    show "\<exists>ws. ?split line = Some ws
          \<and> (\<forall>k < length ws. int (length (ws ! k)) \<le> lookup0 (columnCounts a') (int k)
               \<and> (\<exists>line' \<in> set (scanner a). \<exists>ws'. ?split line' = Some ws' \<and> k < length ws'
                     \<and> lookup0 (columnCounts a') (int k) = int (length (ws' ! k))))"
      by blast
  qed
  with a' unseen show ?thesis by blast
qed

theorem columnLength_max_byte_length_witness:
  "sep ragged_example \<noteq> [] \<and> columnCounts ragged_example = Map.empty
   \<and> (\<exists>a'. columnLength ragged_example = Some a' \<and> lines a' = [''a,bb'', ''ccc'']
        \<and> columnSize a' 0 = 3 \<and> columnSize a' 1 = 2 \<and> columnSize a' 2 = - 1)"
proof -
  have h1: "sep ragged_example \<noteq> []" by (simp add: ragged_example_def NewAlign_def)
  have h2: "columnCounts ragged_example = Map.empty" by (simp add: ragged_example_def NewAlign_def)
  from columnLength_max_byte_length [OF h1 h2] obtain a' where
    a': "columnLength ragged_example = Some a'" "lines a' = scanner ragged_example" by blast
  have "map_option (\<lambda>a'. map (columnSize a') [0, 1, 2]) (columnLength ragged_example)
          = Some [3, 2, - 1]"
    by code_simp
  with a' have "columnSize a' 0 = 3 \<and> columnSize a' 1 = 2 \<and> columnSize a' 2 = - 1" by simp
  moreover from a'(2) have "lines a' = [''a,bb'', ''ccc'']"
    by (simp add: ragged_example_def NewAlign_def)
  ultimately show ?thesis using h1 h2 a'(1) by blast
qed

text \<open>
  The claim as stated fails: the table holds byte lengths, without the wide-glyph
  correction. For the single field U+00F1 it holds 2, the number of bytes, while the
  display width is 1.
\<close>

theorem width_table_counts_bytes_counterexample:
  "map_option (\<lambda>a'. columnSize a' 0) (columnLength (NewAlign [n_tilde] '','' qualifier_off)) = Some 2
   \<and> int (length n_tilde) = 2 \<and> narrow_StringWidth n_tilde = 1"
  by code_simp

end
